theory Spec2Isabelle
  imports Main "HOL-Library.Word"
begin

unbundle bit_operations_syntax

section \<open>Data model of hopscotch.c\<close>

text \<open>
  The declarations of \<^verbatim>\<open>key_t\<close>, \<^verbatim>\<open>bitmap_t\<close> and \<^verbatim>\<open>uint\<close> live in headers that
  are not part of the source file.
  \<^item> \<^verbatim>\<open>key_t\<close> is an unsigned integer whose width is left open: the records take the
    key type as their parameter \<open>'h\<close>, and every function uses them at \<open>'k word\<close>,
    so that \<^verbatim>\<open>sizeof(key_t)*8\<close> is \<open>LENGTH('k)\<close>.
  \<^item> \<^verbatim>\<open>uint\<close> values (sizes, ranges, loop counters) are natural numbers; the two
    places where the source subtracts one from a \<^verbatim>\<open>uint\<close> write the wrap-around out.
    The counters \<^verbatim>\<open>count\<close> and \<^verbatim>\<open>timestamp\<close> are 32-bit words.
  \<^item> \<^verbatim>\<open>void *\<close> (keys and data) is an address, a natural number with \<open>NULL = 0\<close>.
  \<^item> A pointer into a segment's bucket array is the integer offset from
    \<^verbatim>\<open>bucket_array\<close>; it may leave the array, and dereferencing it there is an error.

  The source file does not compile as it stands. It uses names that it does not declare
  (\<^verbatim>\<open>ADD_RANGE\<close>, \<^verbatim>\<open>resize\<close>, and \<^verbatim>\<open>last_bucket\<close> and \<^verbatim>\<open>n_buckets_in_segment\<close> as plain
  identifiers), and it has slips of the pen (\<^verbatim>\<open>returne\<close>, \<^verbatim>\<open>this->bucket\<close>,
  \<^verbatim>\<open>*free_bucket->data\<close>, a semicolon after three function headers, a start bucket
  assigned without \<^verbatim>\<open>&\<close>). Each such place is read as the declared name or the expression
  it stands for, and is named where it is modelled. Everything else, the statements and
  their order, is taken as written.
\<close>

text \<open>Modelled from the spec: \<^verbatim>\<open>bitmap_t\<close> is declared in the absent hopscotch.h; the
  spec gives the bitmap the width of the hop range, "typically 32".\<close>
type_synonym bitmap_t = "32 word"

type_synonym void_ptr = nat

definition NULL :: void_ptr where
  "NULL = 0"

record 'h hs_bucket =
  data :: void_ptr
  hkey :: 'h
  hop_info :: bitmap_t

record 'h hs_segment =
  bucket_array :: "'h hs_bucket list option"
  last_bucket :: int
  lock :: bool
  count :: "32 word"
  timestamp :: "32 word"

record 'h hs_table =
  segment_array :: "'h hs_segment list"
  hash :: "void_ptr \<Rightarrow> 'h"
  n_buckets_in_segment :: nat
  n_segments :: nat
  hop_range :: nat
  add_range :: nat
  max_tries :: nat
  segment_mask :: 'h

text \<open>What the C code can do besides returning: dereference a null or out-of-range
  pointer, shift an \<^verbatim>\<open>int\<close> by a count outside \<open>0..30\<close> (undefined for \<^verbatim>\<open>1 << n\<close>
  when \<open>2^n\<close> is not representable), divide by zero, convert an unrepresentable
  floating-point value to \<^verbatim>\<open>uint\<close>, or block for ever on a lock that is held.\<close>

datatype hs_error =
  NullPointer | OutOfBounds | UndefinedShift | DivisionByZero | UndefinedConversion | Deadlock

subsection \<open>Memory, locks and shifts\<close>

text \<open>Sequencing: the first error ends the computation.\<close>

definition ebind :: "hs_error + 'a \<Rightarrow> ('a \<Rightarrow> hs_error + 'b) \<Rightarrow> hs_error + 'b" where
  "ebind m f = (case m of Inl e \<Rightarrow> Inl e | Inr x \<Rightarrow> f x)"

text \<open>Modelled from the spec: \<^verbatim>\<open>ALLOCATE\<close> comes from the absent alloc.h; the spec's
  allocator contract is that it returns zero-initialised memory. A zeroed segment has
  null pointers, a zeroed bucket has the empty sentinel and an empty bitmap.\<close>

definition zero_segment :: "'k::len word hs_segment" where
  "zero_segment = \<lparr>bucket_array = None, last_bucket = 0, lock = False, count = 0, timestamp = 0\<rparr>"

definition zero_bucket :: "'k::len word hs_bucket" where
  "zero_bucket = \<lparr>data = NULL, hkey = 0, hop_info = 0\<rparr>"

text \<open>Reading and writing \<^verbatim>\<open>p->field\<close> for a bucket pointer \<open>p\<close> of segment \<open>seg\<close>.\<close>

definition bucket_at :: "'k::len word hs_segment \<Rightarrow> int \<Rightarrow> hs_error + 'k word hs_bucket" where
  "bucket_at seg p =
     (case bucket_array seg of
        None \<Rightarrow> Inl NullPointer
      | Some bs \<Rightarrow> if 0 \<le> p \<and> p < int (length bs) then Inr (bs ! nat p) else Inl OutOfBounds)"

definition bucket_upd ::
  "'k::len word hs_segment \<Rightarrow> int \<Rightarrow> ('k word hs_bucket \<Rightarrow> 'k word hs_bucket) \<Rightarrow> hs_error + 'k word hs_segment" where
  "bucket_upd seg p f =
     (case bucket_array seg of
        None \<Rightarrow> Inl NullPointer
      | Some bs \<Rightarrow>
          if 0 \<le> p \<and> p < int (length bs)
          then Inr (seg\<lparr>bucket_array := Some (bs[nat p := f (bs ! nat p)])\<rparr>)
          else Inl OutOfBounds)"

text \<open>Modelled from the spec: \<^verbatim>\<open>LOCK_ACQUIRE\<close> and \<^verbatim>\<open>LOCK_RELEASE\<close> come from the absent
  sync.h; the spec's lock contract is binary mutual exclusion. With all operations
  serialized, acquiring a lock that is still held never returns.\<close>

definition LOCK_ACQUIRE :: "'k::len word hs_segment \<Rightarrow> hs_error + 'k word hs_segment" where
  "LOCK_ACQUIRE seg = (if lock seg then Inl Deadlock else Inr (seg\<lparr>lock := True\<rparr>))"

definition LOCK_RELEASE :: "'k::len word hs_segment \<Rightarrow> 'k word hs_segment" where
  "LOCK_RELEASE seg = seg\<lparr>lock := False\<rparr>"

text \<open>The C expression \<^verbatim>\<open>1 << n\<close> on \<^verbatim>\<open>int\<close>, as the natural number it denotes.\<close>

definition shl1 :: "int \<Rightarrow> hs_error + nat" where
  "shl1 n = (if 0 \<le> n \<and> n < 31 then Inr (2 ^ nat n) else Inl UndefinedShift)"

text \<open>\<^verbatim>\<open>x - 1\<close> on a \<^verbatim>\<open>uint\<close>.\<close>

definition uint_pred :: "nat \<Rightarrow> nat" where
  "uint_pred x = (x + 2 ^ 32 - 1) mod 2 ^ 32"

section \<open>Private functions\<close>

subsection \<open>get_segment_idx\<close>

text \<open>
  \<^verbatim>\<open>uint nbits = (sizeof(key_t)*8 - log2(table->n_segments));\<close>
  The subtraction is done in floating point and truncated. For \<open>1 \<le> S < 2^(W+1)\<close> the
  truncation of \<open>W - log2 S\<close> is \<open>W\<close> minus the rounded-up logarithm (and 0 when that is
  larger than \<open>W\<close>); for other \<open>S\<close> the value does not fit a \<^verbatim>\<open>uint\<close>.
\<close>

fun clog2 :: "nat \<Rightarrow> nat" where
  "clog2 n = (if n \<le> 1 then 0 else Suc (clog2 ((n + 1) div 2)))"

declare clog2.simps [simp del]

definition segment_nbits :: "nat \<Rightarrow> nat \<Rightarrow> hs_error + nat" where
  "segment_nbits W S =
     (if S = 0 \<or> 2 ^ (W + 1) \<le> S then Inl UndefinedConversion else Inr (W - clog2 S))"

text \<open>\<^verbatim>\<open>for (i = 0; i < nbits; ++i) { mask |= 1 << i; }\<close>\<close>

function mask_loop :: "nat \<Rightarrow> nat \<Rightarrow> 'k::len word \<Rightarrow> hs_error + 'k word" where
  "mask_loop i nbits msk =
     (if i < nbits then
        (case shl1 (int i) of
           Inl e \<Rightarrow> Inl e
         | Inr b \<Rightarrow> mask_loop (i + 1) nbits (msk OR of_nat b))
      else Inr msk)"
  by pat_completeness auto
termination
  by (relation "measure (\<lambda>(i, nbits, msk). nbits - i)") auto

declare mask_loop.simps [simp del]

text \<open>The function returns \<^verbatim>\<open>mask\<close>; the statement \<^verbatim>\<open>return hkey & mask;\<close> after it is
  never reached.\<close>

definition get_segment_idx :: "'k::len word hs_table \<Rightarrow> 'k word \<Rightarrow> hs_error + 'k word" where
  "get_segment_idx table hk =
     (case segment_nbits LENGTH('k) (n_segments table) of
        Inl e \<Rightarrow> Inl e
      | Inr nbits \<Rightarrow> mask_loop 0 nbits 0)"

subsection \<open>check_neighborhood\<close>

text \<open>The \<^verbatim>\<open>while (hop_info > 0)\<close> loop over the local copy of the bitmap. The pointer is
  wrapped only when the lowest bit is set (\<^verbatim>\<open>this->bucket -= ...\<close> in the source is read
  as \<^verbatim>\<open>this_bucket -= ...\<close>), and it stays wrapped in the rounds that follow.\<close>

function cn_loop ::
  "'k::len word hs_table \<Rightarrow> 'k word hs_segment \<Rightarrow> 'k word \<Rightarrow> bitmap_t \<Rightarrow> int \<Rightarrow> hs_error + int option" where
  "cn_loop table seg hk hop this_bucket =
     (if hop > 0 then
        (if hop AND 1 \<noteq> 0 then
           (let this_bucket' =
                  (if this_bucket > last_bucket seg
                   then this_bucket - int (n_buckets_in_segment table) else this_bucket)
            in case bucket_at seg this_bucket' of
                 Inl e \<Rightarrow> Inl e
               | Inr b \<Rightarrow>
                   if hk = hkey b then Inr (Some this_bucket')
                   else cn_loop table seg hk (drop_bit 1 hop) (this_bucket' + 1))
         else cn_loop table seg hk (drop_bit 1 hop) (this_bucket + 1))
      else Inr None)"
  by pat_completeness auto
termination
proof (relation "measure (\<lambda>(table, seg, hk, hop, this_bucket). unat hop)")
  show "wf (measure (\<lambda>(table, seg, hk, hop, this_bucket). unat hop))"
    by simp
next
  fix table :: "'k word hs_table" and seg :: "'k word hs_segment" and hk :: "'k word"
    and hop :: bitmap_t and this_bucket x :: int
  assume "0 < hop"
  then have "unat (drop_bit 1 hop) < unat hop"
    by (simp add: drop_bit_Suc unat_div word_greater_zero_iff unat_gt_0)
  then show "((table, seg, hk, drop_bit 1 hop, x + 1), table, seg, hk, hop, this_bucket)
               \<in> measure (\<lambda>(table, seg, hk, hop, this_bucket). unat hop)"
    and "((table, seg, hk, drop_bit 1 hop, this_bucket + 1), table, seg, hk, hop, this_bucket)
               \<in> measure (\<lambda>(table, seg, hk, hop, this_bucket). unat hop)"
    by simp_all
qed

declare cn_loop.simps [simp del]

definition check_neighborhood ::
  "'k::len word hs_table \<Rightarrow> 'k word hs_segment \<Rightarrow> int \<Rightarrow> 'k word \<Rightarrow> hs_error + int option" where
  "check_neighborhood table seg start_bucket hk =
     (case bucket_at seg start_bucket of
        Inl e \<Rightarrow> Inl e
      | Inr sb \<Rightarrow> cn_loop table seg hk (hop_info sb) start_bucket)"

subsection \<open>find_closer_free_bucket\<close>

text \<open>
  \<^verbatim>\<open>key_t mask = (1 << 1);
  for (i = 1; i < bucket_idx; i++, mask <<= 1) { if (mask & hop_info) move_distance = i; }\<close>
  \<^verbatim>\<open>mask\<close> is a \<^verbatim>\<open>key_t\<close>, so its shifts stay in the width of the key; the test
  compares the two unsigned values bit by bit.
\<close>

function scan_hop_info :: "nat \<Rightarrow> nat \<Rightarrow> 'k::len word \<Rightarrow> bitmap_t \<Rightarrow> int \<Rightarrow> int" where
  "scan_hop_info i bucket_idx msk hop move_distance =
     (if i < bucket_idx then
        scan_hop_info (i + 1) bucket_idx (push_bit 1 msk) hop
          (if unat msk AND unat hop \<noteq> 0 then int i else move_distance)
      else move_distance)"
  by pat_completeness auto
termination
  by (relation "measure (\<lambda>(i, bucket_idx, msk, hop, move_distance). bucket_idx - i)") auto

declare scan_hop_info.simps [simp del]

text \<open>The block under \<^verbatim>\<open>if (move_distance != -1)\<close>. When the donor lies past the last
  bucket the source subtracts the segment size from \<^verbatim>\<open>check_bucket\<close>, and leaves
  \<^verbatim>\<open>new_free_bucket\<close> as it is. \<^verbatim>\<open>last_bucket\<close> is not declared in this function; it is
  read as \<^verbatim>\<open>seg->last_bucket\<close>, as in the other functions. \<^verbatim>\<open>*free_bucket->data\<close> and
  \<^verbatim>\<open>*free_bucket->hkey\<close> are read as \<^verbatim>\<open>(*free_bucket)->data\<close> and \<^verbatim>\<open>(*free_bucket)->hkey\<close>.
  The statements follow in the order of the source; the new \<^verbatim>\<open>*dist_travelled\<close> is
  \<^verbatim>\<open>bucket_idx\<close>.\<close>

definition swap_buckets ::
  "'k::len word hs_table \<Rightarrow> 'k word hs_segment \<Rightarrow> int \<Rightarrow> int \<Rightarrow> nat \<Rightarrow> int
     \<Rightarrow> hs_error + ('k word hs_segment \<times> int option \<times> nat)" where
  "swap_buckets table seg free_bucket check_bucket bucket_idx move_distance =
     (let new_free_bucket = check_bucket + move_distance;
          check_bucket' =
            (if new_free_bucket > last_bucket seg
             then check_bucket - int (n_buckets_in_segment table) else check_bucket)
      in
      ebind (shl1 (int bucket_idx)) (\<lambda>b1.
      ebind (bucket_upd seg check_bucket' (\<lambda>b. b\<lparr>hop_info := hop_info b OR of_nat b1\<rparr>)) (\<lambda>seg1.
      ebind (shl1 move_distance) (\<lambda>b2.
      ebind (bucket_upd seg1 check_bucket' (\<lambda>b. b\<lparr>hop_info := hop_info b AND NOT (of_nat b2)\<rparr>)) (\<lambda>seg2.
      ebind (bucket_at seg2 new_free_bucket) (\<lambda>nb.
      ebind (bucket_upd seg2 free_bucket (\<lambda>b. b\<lparr>data := data nb\<rparr>)) (\<lambda>seg3.
      ebind (bucket_at seg3 new_free_bucket) (\<lambda>nb'.
      ebind (bucket_upd seg3 free_bucket (\<lambda>b. b\<lparr>hkey := hkey nb'\<rparr>)) (\<lambda>seg4.
      ebind (bucket_upd (seg4\<lparr>timestamp := timestamp seg4 + 1\<rparr>) new_free_bucket (\<lambda>b. b\<lparr>hkey := 0\<rparr>)) (\<lambda>seg5.
      ebind (bucket_upd seg5 new_free_bucket (\<lambda>b. b\<lparr>data := NULL\<rparr>)) (\<lambda>seg6.
      Inr (seg6, Some new_free_bucket, bucket_idx))))))))))))"

text \<open>The \<^verbatim>\<open>while (bucket_idx > 0)\<close> loop. The result is the segment, the new
  \<^verbatim>\<open>*free_bucket\<close> (\<open>None\<close> for \<^verbatim>\<open>NULL\<close>) and the new \<^verbatim>\<open>*dist_travelled\<close>.\<close>

function fcfb_loop ::
  "'k::len word hs_table \<Rightarrow> 'k word hs_segment \<Rightarrow> int \<Rightarrow> int \<Rightarrow> nat
     \<Rightarrow> hs_error + ('k word hs_segment \<times> int option \<times> nat)" where
  "fcfb_loop table seg free_bucket check_bucket bucket_idx =
     (if bucket_idx > 0 then
        (case bucket_at seg check_bucket of
           Inl e \<Rightarrow> Inl e
         | Inr cb \<Rightarrow>
             (let move_distance = scan_hop_info 1 bucket_idx (push_bit 1 (1 :: 'k word)) (hop_info cb) (- 1)
              in if move_distance \<noteq> - 1
                 then swap_buckets table seg free_bucket check_bucket bucket_idx move_distance
                 else (let check_bucket1 = check_bucket + 1;
                           check_bucket2 =
                             (if check_bucket1 > last_bucket seg
                              then check_bucket1 - int (n_buckets_in_segment table)
                              else check_bucket1)
                       in fcfb_loop table seg free_bucket check_bucket2 (bucket_idx - 1))))
      else Inr (seg, None, 0))"
  by pat_completeness auto
termination
  by (relation "measure (\<lambda>(table, seg, free_bucket, check_bucket, bucket_idx). bucket_idx)") auto

declare fcfb_loop.simps [simp del]

definition find_closer_free_bucket ::
  "'k::len word hs_table \<Rightarrow> 'k word hs_segment \<Rightarrow> int \<Rightarrow> nat
     \<Rightarrow> hs_error + ('k word hs_segment \<times> int option \<times> nat)" where
  "find_closer_free_bucket table seg free_bucket dist_travelled =
     (let check_bucket = free_bucket - int (uint_pred (hop_range table));
          check_bucket' =
            (if check_bucket < 0 then check_bucket + int (n_buckets_in_segment table)
             else check_bucket)
      in fcfb_loop table seg free_bucket check_bucket' (uint_pred (hop_range table)))"

subsection \<open>hs_resize\<close>

text \<open>\<^verbatim>\<open>// Not implemented\<close>: the function returns at once.\<close>

definition hs_resize :: "'k::len word hs_table \<Rightarrow> 'k word hs_table" where
  "hs_resize table = table"

section \<open>Public functions\<close>

subsection \<open>hs_new\<close>

text \<open>The inner loop \<^verbatim>\<open>for (j = 0; j < n_buckets_in_segment; j++)\<close> over a freshly
  allocated bucket array.\<close>

definition init_buckets :: "nat \<Rightarrow> 'k::len word hs_bucket list" where
  "init_buckets B =
     fold (\<lambda>j bs. bs[j := (bs ! j)\<lparr>hkey := 0, hop_info := 0\<rparr>]) [0..<B] (replicate B zero_bucket)"

text \<open>The value of the local variable \<^verbatim>\<open>seg\<close> at the end of one round of the outer
  loop, from its value at the start of the round.\<close>

definition hs_new_local_seg :: "nat \<Rightarrow> 'k::len word hs_segment \<Rightarrow> 'k word hs_segment" where
  "hs_new_local_seg B seg =
     seg\<lparr>lock := False, count := 0, timestamp := 0,
         bucket_array := Some (init_buckets B), last_bucket := int (uint_pred B)\<rparr>"

text \<open>The outer loop. \<^verbatim>\<open>hs_segment_t seg = new_table->segment_array[i];\<close> copies the
  segment into a local variable; the round assigns to the copy only, and nothing is
  stored back into the array.\<close>

definition hs_new_segments :: "nat \<Rightarrow> nat \<Rightarrow> 'k::len word hs_segment list \<Rightarrow> 'k word hs_segment list" where
  "hs_new_segments S B arr = fold (\<lambda>i arr. let seg = hs_new_local_seg B (arr ! i) in arr) [0..<S] arr"

text \<open>Modelled from the spec: \<^verbatim>\<open>get_segment_mask\<close> is not in the source file; the spec
  has \<open>segment_mask = S - 1\<close>.\<close>

definition get_segment_mask :: "nat \<Rightarrow> 'k::len word" where
  "get_segment_mask S = of_nat S - 1"

definition hs_new ::
  "nat \<Rightarrow> nat \<Rightarrow> nat \<Rightarrow> nat \<Rightarrow> nat \<Rightarrow> (void_ptr \<Rightarrow> 'k::len word) \<Rightarrow> 'k word hs_table" where
  "hs_new S B R A T hash_fn =
     \<lparr>segment_array = hs_new_segments S B (replicate S zero_segment),
      hash = hash_fn,
      n_buckets_in_segment = B,
      n_segments = S,
      hop_range = R,
      add_range = A,
      max_tries = T,
      segment_mask = get_segment_mask S\<rparr>"

text \<open>The table in which every segment is the value that the constructor's loop computes
  in its local variable. \<open>hs_new\<close> does not return this table; it is the starting
  point for statements about put, get and remove on initialised segments.\<close>

definition hs_new_stored ::
  "nat \<Rightarrow> nat \<Rightarrow> nat \<Rightarrow> nat \<Rightarrow> nat \<Rightarrow> (void_ptr \<Rightarrow> 'k::len word) \<Rightarrow> 'k word hs_table" where
  "hs_new_stored S B R A T hash_fn =
     (hs_new S B R A T hash_fn)\<lparr>segment_array := replicate S (hs_new_local_seg B zero_segment)\<rparr>"

subsection \<open>The common prologue of hs_put, hs_get and hs_remove\<close>

text \<open>
  \<^verbatim>\<open>key_t hkey = calculate_hash(key);
  hs_segment_t *seg = &(table->segment_array[get_segment_idx(table, hkey)]);
  key_t bucket_idx = hkey % table->n_buckets_in_segment;\<close>
  \<^verbatim>\<open>calculate_hash\<close> comes from the absent hash.h and is a parameter of the three
  operations. The result is the hashed key, the index of the segment and the
  start bucket; the source's \<^verbatim>\<open>start_bucket = seg->bucket_array[bucket_idx]\<close> is read as
  \<^verbatim>\<open>&seg->bucket_array[bucket_idx]\<close>. The segment index is used as the source computes
  it, and an index outside the segment array is an error.
\<close>

definition hs_route ::
  "(void_ptr \<Rightarrow> 'k::len word) \<Rightarrow> 'k word hs_table \<Rightarrow> void_ptr \<Rightarrow> hs_error + ('k word \<times> nat \<times> int)" where
  "hs_route calculate_hash table key =
     (let hk = calculate_hash key
      in ebind (get_segment_idx table hk) (\<lambda>idx.
         if unat idx < length (segment_array table) then
           (if n_buckets_in_segment table = 0 then Inl DivisionByZero
            else Inr (hk, unat idx, int (unat hk mod n_buckets_in_segment table)))
         else Inl OutOfBounds))"

text \<open>Writing through the pointer \<^verbatim>\<open>seg\<close> changes the segment in the table's array.\<close>

definition store_segment :: "'k::len word hs_table \<Rightarrow> nat \<Rightarrow> 'k word hs_segment \<Rightarrow> 'k word hs_table" where
  "store_segment table idx seg = table\<lparr>segment_array := (segment_array table)[idx := seg]\<rparr>"

subsection \<open>hs_put\<close>

text \<open>The linear probe \<^verbatim>\<open>for (dist_travelled = 0; dist_travelled < ADD_RANGE; ...)\<close>.
  Modelled from the spec: \<^verbatim>\<open>ADD_RANGE\<close> is not declared in the source file; the spec's
  add range is the table's \<^verbatim>\<open>add_range\<close>. The undeclared \<^verbatim>\<open>n_buckets_in_segment\<close> is
  read as the table's field.\<close>

function probe_loop ::
  "'k::len word hs_table \<Rightarrow> 'k word hs_segment \<Rightarrow> int \<Rightarrow> nat \<Rightarrow> hs_error + (int \<times> nat)" where
  "probe_loop table seg free_bucket dist_travelled =
     (if dist_travelled < add_range table then
        (case bucket_at seg free_bucket of
           Inl e \<Rightarrow> Inl e
         | Inr b \<Rightarrow>
             if hkey b = 0 then Inr (free_bucket, dist_travelled)
             else (let free_bucket1 = free_bucket + 1;
                       free_bucket2 =
                         (if free_bucket1 > last_bucket seg
                          then free_bucket1 - int (n_buckets_in_segment table)
                          else free_bucket1)
                   in probe_loop table seg free_bucket2 (dist_travelled + 1)))
      else Inr (free_bucket, dist_travelled))"
  by pat_completeness auto
termination
  by (relation "measure (\<lambda>(table, seg, free_bucket, dist_travelled). add_range table - dist_travelled)")
    auto

declare probe_loop.simps [simp del]

text \<open>The \<^verbatim>\<open>do ... while (free_bucket != NULL)\<close> loop. The flag of the result tells how
  the loop was left: \<open>True\<close> by the \<^verbatim>\<open>return\<close> after the insertion (the lock released),
  \<open>False\<close> because \<^verbatim>\<open>free_bucket\<close> became \<^verbatim>\<open>NULL\<close>. \<open>None\<close> is a loop that never ends.\<close>

partial_function (option) put_loop ::
  "'k::len word hs_table \<Rightarrow> 'k word hs_segment \<Rightarrow> int \<Rightarrow> int \<Rightarrow> nat \<Rightarrow> 'k word \<Rightarrow> void_ptr
     \<Rightarrow> (hs_error + ('k word hs_segment \<times> bool)) option" where
  "put_loop table seg start_bucket free_bucket dist_travelled hk dat =
     (if dist_travelled < hop_range table then
        Some (ebind (shl1 (int dist_travelled)) (\<lambda>b.
              ebind (bucket_upd seg start_bucket (\<lambda>sb. sb\<lparr>hop_info := hop_info sb OR of_nat b\<rparr>)) (\<lambda>seg1.
              ebind (bucket_upd seg1 free_bucket (\<lambda>fb. fb\<lparr>hkey := hk\<rparr>)) (\<lambda>seg2.
              ebind (bucket_upd seg2 free_bucket (\<lambda>fb. fb\<lparr>data := dat\<rparr>)) (\<lambda>seg3.
              Inr (LOCK_RELEASE seg3, True))))))
      else
        (case find_closer_free_bucket table seg free_bucket dist_travelled of
           Inl e \<Rightarrow> Some (Inl e)
         | Inr (seg', None, dist') \<Rightarrow> Some (Inr (seg', False))
         | Inr (seg', Some free_bucket', dist') \<Rightarrow>
             put_loop table seg' start_bucket free_bucket' dist' hk dat))"

text \<open>One pass through the body of \<^verbatim>\<open>hs_put\<close>, up to the \<^verbatim>\<open>return\<close> (flag \<open>True\<close>) or up
  to the \<^verbatim>\<open>LOCK_RELEASE\<close> before \<^verbatim>\<open>resize()\<close> (flag \<open>False\<close>).\<close>

definition hs_put_pass ::
  "(void_ptr \<Rightarrow> 'k::len word) \<Rightarrow> 'k word hs_table \<Rightarrow> void_ptr \<Rightarrow> void_ptr
     \<Rightarrow> (hs_error + ('k word hs_table \<times> bool)) option" where
  "hs_put_pass calculate_hash table key dat =
     (case hs_route calculate_hash table key of
        Inl e \<Rightarrow> Some (Inl e)
      | Inr (hk, idx, start_bucket) \<Rightarrow>
     (case LOCK_ACQUIRE (segment_array table ! idx) of
        Inl e \<Rightarrow> Some (Inl e)
      | Inr seg \<Rightarrow>
     (case check_neighborhood table seg start_bucket hk of
        Inl e \<Rightarrow> Some (Inl e)
      | Inr (Some existing_bucket) \<Rightarrow> Some (Inr (store_segment table idx (LOCK_RELEASE seg), True))
      | Inr None \<Rightarrow>
     (case probe_loop table seg start_bucket 0 of
        Inl e \<Rightarrow> Some (Inl e)
      | Inr (free_bucket, dist_travelled) \<Rightarrow>
          if dist_travelled < add_range table then
            (case put_loop table seg start_bucket free_bucket dist_travelled hk dat of
               None \<Rightarrow> None
             | Some (Inl e) \<Rightarrow> Some (Inl e)
             | Some (Inr (seg', returned)) \<Rightarrow>
                 if returned then Some (Inr (store_segment table idx seg', True))
                 else Some (Inr (store_segment table idx (LOCK_RELEASE seg'), False)))
          else Some (Inr (store_segment table idx (LOCK_RELEASE seg), False))))))"

text \<open>\<^verbatim>\<open>resize(); hs_put(table, key, data);\<close> The undeclared \<^verbatim>\<open>resize\<close> is read as
  \<^verbatim>\<open>hs_resize(table)\<close>. \<open>None\<close> is a call that never returns.\<close>

partial_function (option) hs_put ::
  "(void_ptr \<Rightarrow> 'k::len word) \<Rightarrow> 'k word hs_table \<Rightarrow> void_ptr \<Rightarrow> void_ptr
     \<Rightarrow> (hs_error + 'k word hs_table) option" where
  "hs_put calculate_hash table key dat =
     (case hs_put_pass calculate_hash table key dat of
        None \<Rightarrow> None
      | Some (Inl e) \<Rightarrow> Some (Inl e)
      | Some (Inr (table', returned)) \<Rightarrow>
          if returned then Some (Inr table')
          else hs_put calculate_hash (hs_resize table') key dat)"

subsection \<open>hs_get\<close>

text \<open>The \<^verbatim>\<open>do ... while (try_counter < max_tries && timestamp != seg->timestamp)\<close> loop.
  With all operations serialized the segment does not change between the two reads of
  its timestamp.\<close>

function get_loop ::
  "'k::len word hs_table \<Rightarrow> 'k word hs_segment \<Rightarrow> int \<Rightarrow> 'k word \<Rightarrow> nat \<Rightarrow> hs_error + void_ptr" where
  "get_loop table seg start_bucket hk try_counter =
     (let ts = timestamp seg
      in case check_neighborhood table seg start_bucket hk of
           Inl e \<Rightarrow> Inl e
         | Inr (Some check_bucket) \<Rightarrow> ebind (bucket_at seg check_bucket) (\<lambda>b. Inr (data b))
         | Inr None \<Rightarrow>
             if try_counter + 1 < max_tries table \<and> ts \<noteq> timestamp seg
             then get_loop table seg start_bucket hk (try_counter + 1)
             else Inr NULL)"
  by pat_completeness auto
termination
  by (relation "measure (\<lambda>(table, seg, start_bucket, hk, try_counter). max_tries table - try_counter)")
    auto

declare get_loop.simps [simp del]

text \<open>The result is the returned pointer together with the table after the call.\<close>

definition hs_get ::
  "(void_ptr \<Rightarrow> 'k::len word) \<Rightarrow> 'k word hs_table \<Rightarrow> void_ptr
     \<Rightarrow> hs_error + (void_ptr \<times> 'k word hs_table)" where
  "hs_get calculate_hash table key =
     ebind (hs_route calculate_hash table key) (\<lambda>(hk, idx, start_bucket).
     ebind (get_loop table (segment_array table ! idx) start_bucket hk 0) (\<lambda>d.
     Inr (d, table)))"

subsection \<open>hs_remove\<close>

text \<open>On the path that finds the key the function returns without \<^verbatim>\<open>LOCK_RELEASE\<close>.
  \<^verbatim>\<open>check_bucket - start_bucket\<close> is the difference of the two pointers.\<close>

definition hs_remove ::
  "(void_ptr \<Rightarrow> 'k::len word) \<Rightarrow> 'k word hs_table \<Rightarrow> void_ptr
     \<Rightarrow> hs_error + (void_ptr \<times> 'k word hs_table)" where
  "hs_remove calculate_hash table key =
     ebind (hs_route calculate_hash table key) (\<lambda>(hk, idx, start_bucket).
     ebind (LOCK_ACQUIRE (segment_array table ! idx)) (\<lambda>seg.
     ebind (check_neighborhood table seg start_bucket hk) (\<lambda>found.
       case found of
         Some check_bucket \<Rightarrow>
           ebind (bucket_at seg check_bucket) (\<lambda>cb.
           ebind (bucket_upd seg check_bucket (\<lambda>b. b\<lparr>hkey := 0\<rparr>)) (\<lambda>seg1.
           ebind (bucket_upd seg1 check_bucket (\<lambda>b. b\<lparr>data := NULL\<rparr>)) (\<lambda>seg2.
           ebind (shl1 (check_bucket - start_bucket)) (\<lambda>bit.
           ebind (bucket_upd seg2 start_bucket (\<lambda>b. b\<lparr>hop_info := hop_info b AND NOT (of_nat bit)\<rparr>)) (\<lambda>seg3.
           Inr (data cb, store_segment table idx seg3))))))
       | None \<Rightarrow> Inr (NULL, store_segment table idx (LOCK_RELEASE seg)))))"

section \<open>Serialized executions\<close>

text \<open>A caller that issues one operation after the other. A run stops at the first
  operation that ends in an error, and is \<open>None\<close> when an operation never returns.\<close>

datatype hs_op = Put void_ptr void_ptr | Get void_ptr | Remove void_ptr

datatype hs_reply = Done | Value void_ptr

fun hs_step ::
  "(void_ptr \<Rightarrow> 'k::len word) \<Rightarrow> 'k word hs_table \<Rightarrow> hs_op
     \<Rightarrow> (hs_error + (hs_reply \<times> 'k word hs_table)) option" where
  "hs_step ch table (Put key dat) =
     (case hs_put ch table key dat of
        None \<Rightarrow> None
      | Some (Inl e) \<Rightarrow> Some (Inl e)
      | Some (Inr table') \<Rightarrow> Some (Inr (Done, table')))"
| "hs_step ch table (Get key) =
     (case hs_get ch table key of
        Inl e \<Rightarrow> Some (Inl e)
      | Inr (v, table') \<Rightarrow> Some (Inr (Value v, table')))"
| "hs_step ch table (Remove key) =
     (case hs_remove ch table key of
        Inl e \<Rightarrow> Some (Inl e)
      | Inr (v, table') \<Rightarrow> Some (Inr (Value v, table')))"

fun hs_run ::
  "(void_ptr \<Rightarrow> 'k::len word) \<Rightarrow> 'k word hs_table \<Rightarrow> hs_op list
     \<Rightarrow> (hs_error + (hs_reply list \<times> 'k word hs_table)) option" where
  "hs_run ch table [] = Some (Inr ([], table))"
| "hs_run ch table (c # cs) =
     (case hs_step ch table c of
        None \<Rightarrow> None
      | Some (Inl e) \<Rightarrow> Some (Inl e)
      | Some (Inr (r, table')) \<Rightarrow>
          (case hs_run ch table' cs of
             None \<Rightarrow> None
           | Some (Inl e) \<Rightarrow> Some (Inl e)
           | Some (Inr (rs, table'')) \<Rightarrow> Some (Inr (r # rs, table''))))"

text \<open>No segment lock is held: the state between two serialized operations that have
  both released their lock.\<close>

definition quiescent :: "'k::len word hs_table \<Rightarrow> bool" where
  "quiescent table = list_all (\<lambda>seg. \<not> lock seg) (segment_array table)"

text \<open>The key is bound to \<open>v\<close>: the neighbourhood scan from the key's start bucket, which
  all three operations run, finds a bucket, and that bucket holds \<open>v\<close>.\<close>

definition hs_bound ::
  "(void_ptr \<Rightarrow> 'k::len word) \<Rightarrow> 'k word hs_table \<Rightarrow> void_ptr \<Rightarrow> void_ptr \<Rightarrow> bool" where
  "hs_bound calculate_hash table key v =
     (case hs_route calculate_hash table key of
        Inl e \<Rightarrow> False
      | Inr (hk, idx, start_bucket) \<Rightarrow>
          (case check_neighborhood table (segment_array table ! idx) start_bucket hk of
             Inl e \<Rightarrow> False
           | Inr None \<Rightarrow> False
           | Inr (Some p) \<Rightarrow>
               (case bucket_at (segment_array table ! idx) p of
                  Inl e \<Rightarrow> False
                | Inr b \<Rightarrow> data b = v)))"

text \<open>The number of buckets of a segment whose hashed key is not the empty sentinel.\<close>

definition nonempty_buckets :: "'k::len word hs_segment \<Rightarrow> nat" where
  "nonempty_buckets seg =
     (case bucket_array seg of
        None \<Rightarrow> 0
      | Some bs \<Rightarrow> length (filter (\<lambda>b. hkey b \<noteq> 0) bs))"

subsection \<open>Test tables\<close>

text \<open>The hash function of the tests: the key itself, cut to the width of \<^verbatim>\<open>key_t\<close>.\<close>

definition id_hash :: "void_ptr \<Rightarrow> 'k::len word" where
  "id_hash key = of_nat key"

text \<open>The spec's test configuration \<open>S = 4\<close>, \<open>B = 16\<close>, \<open>R = 8\<close>, \<open>A = 32\<close>, \<open>T_max = 3\<close>,
  as \<open>hs_new\<close> returns it, with a 32-bit \<^verbatim>\<open>key_t\<close>.\<close>

definition table_spec :: "32 word hs_table" where
  "table_spec = hs_new 4 16 8 32 3 id_hash"

text \<open>Tables with initialised segments and a 32-bit \<^verbatim>\<open>key_t\<close>. With \<open>2^16\<close> segments
  \<open>get_segment_idx\<close> yields the mask \<open>2^16 - 1\<close>, the index of the last segment, so that
  the operations reach a segment of the table. All sizes are powers of two,
  \<open>1 \<le> R \<le> 32\<close> and \<open>R \<le> A \<le> B\<close>. \<open>table_b8\<close> has 8 buckets in a segment, hop range 3
  and add range 8; \<open>table_b4\<close> has 4 buckets, hop range 3 and add range 4; \<open>table_b1\<close>
  has one bucket, hop range 1 and add range 1.\<close>

definition table_b8 :: "32 word hs_table" where
  "table_b8 = hs_new_stored 65536 8 3 8 1 id_hash"

definition table_b4 :: "32 word hs_table" where
  "table_b4 = hs_new_stored 65536 4 3 4 1 id_hash"

definition table_b1 :: "32 word hs_table" where
  "table_b1 = hs_new_stored 65536 1 1 1 1 id_hash"

text \<open>States of the last segment that the runs below reach.\<close>

definition fresh_segment_b8 :: "32 word hs_segment" where
  "fresh_segment_b8 =
     \<lparr>bucket_array = Some
        [\<lparr>data = 0, hkey = 0, hop_info = 0\<rparr>,
         \<lparr>data = 0, hkey = 0, hop_info = 0\<rparr>,
         \<lparr>data = 0, hkey = 0, hop_info = 0\<rparr>,
         \<lparr>data = 0, hkey = 0, hop_info = 0\<rparr>,
         \<lparr>data = 0, hkey = 0, hop_info = 0\<rparr>,
         \<lparr>data = 0, hkey = 0, hop_info = 0\<rparr>,
         \<lparr>data = 0, hkey = 0, hop_info = 0\<rparr>,
         \<lparr>data = 0, hkey = 0, hop_info = 0\<rparr>],
      last_bucket = 7, lock = False, count = 0, timestamp = 0\<rparr>"

definition table_b8_one :: "32 word hs_table" where
  "table_b8_one = store_segment table_b8 65535
     \<lparr>bucket_array = Some
        [\<lparr>data = 108, hkey = 8, hop_info = 1\<rparr>,
         \<lparr>data = 0, hkey = 0, hop_info = 0\<rparr>,
         \<lparr>data = 0, hkey = 0, hop_info = 0\<rparr>,
         \<lparr>data = 0, hkey = 0, hop_info = 0\<rparr>,
         \<lparr>data = 0, hkey = 0, hop_info = 0\<rparr>,
         \<lparr>data = 0, hkey = 0, hop_info = 0\<rparr>,
         \<lparr>data = 0, hkey = 0, hop_info = 0\<rparr>,
         \<lparr>data = 0, hkey = 0, hop_info = 0\<rparr>],
      last_bucket = 7, lock = False, count = 0, timestamp = 0\<rparr>"

definition table_b8_removed :: "32 word hs_table" where
  "table_b8_removed = store_segment table_b8 65535
     \<lparr>bucket_array = Some
        [\<lparr>data = 0, hkey = 0, hop_info = 0\<rparr>,
         \<lparr>data = 0, hkey = 0, hop_info = 0\<rparr>,
         \<lparr>data = 0, hkey = 0, hop_info = 0\<rparr>,
         \<lparr>data = 0, hkey = 0, hop_info = 0\<rparr>,
         \<lparr>data = 0, hkey = 0, hop_info = 0\<rparr>,
         \<lparr>data = 0, hkey = 0, hop_info = 0\<rparr>,
         \<lparr>data = 0, hkey = 0, hop_info = 0\<rparr>,
         \<lparr>data = 0, hkey = 0, hop_info = 0\<rparr>],
      last_bucket = 7, lock = True, count = 0, timestamp = 0\<rparr>"

definition table_b8_locked :: "32 word hs_table" where
  "table_b8_locked = store_segment table_b8 65535
     \<lparr>bucket_array = Some
        [\<lparr>data = 108, hkey = 8, hop_info = 1\<rparr>,
         \<lparr>data = 0, hkey = 0, hop_info = 0\<rparr>,
         \<lparr>data = 0, hkey = 0, hop_info = 0\<rparr>,
         \<lparr>data = 0, hkey = 0, hop_info = 0\<rparr>,
         \<lparr>data = 0, hkey = 0, hop_info = 0\<rparr>,
         \<lparr>data = 0, hkey = 0, hop_info = 0\<rparr>,
         \<lparr>data = 0, hkey = 0, hop_info = 0\<rparr>,
         \<lparr>data = 0, hkey = 0, hop_info = 0\<rparr>],
      last_bucket = 7, lock = True, count = 0, timestamp = 0\<rparr>"

definition table_b8_five :: "32 word hs_table" where
  "table_b8_five = store_segment table_b8 65535
     \<lparr>bucket_array = Some
        [\<lparr>data = 108, hkey = 8, hop_info = 5\<rparr>,
         \<lparr>data = 109, hkey = 9, hop_info = 1\<rparr>,
         \<lparr>data = 110, hkey = 10, hop_info = 5\<rparr>,
         \<lparr>data = 116, hkey = 16, hop_info = 0\<rparr>,
         \<lparr>data = 118, hkey = 18, hop_info = 0\<rparr>,
         \<lparr>data = 0, hkey = 0, hop_info = 0\<rparr>,
         \<lparr>data = 0, hkey = 0, hop_info = 0\<rparr>,
         \<lparr>data = 0, hkey = 0, hop_info = 0\<rparr>],
      last_bucket = 7, lock = False, count = 0, timestamp = 1\<rparr>"

definition fresh_segment_b4 :: "32 word hs_segment" where
  "fresh_segment_b4 =
     \<lparr>bucket_array = Some
        [\<lparr>data = 0, hkey = 0, hop_info = 0\<rparr>,
         \<lparr>data = 0, hkey = 0, hop_info = 0\<rparr>,
         \<lparr>data = 0, hkey = 0, hop_info = 0\<rparr>,
         \<lparr>data = 0, hkey = 0, hop_info = 0\<rparr>],
      last_bucket = 3, lock = False, count = 0, timestamp = 0\<rparr>"

definition segment_wrap :: "32 word hs_segment" where
  "segment_wrap =
     \<lparr>bucket_array = Some
        [\<lparr>data = 107, hkey = 7, hop_info = 0\<rparr>,
         \<lparr>data = 0, hkey = 0, hop_info = 0\<rparr>,
         \<lparr>data = 102, hkey = 2, hop_info = 1\<rparr>,
         \<lparr>data = 103, hkey = 3, hop_info = 3\<rparr>],
      last_bucket = 3, lock = False, count = 0, timestamp = 0\<rparr>"

definition fresh_segment_b1 :: "32 word hs_segment" where
  "fresh_segment_b1 =
     \<lparr>bucket_array = Some
        [\<lparr>data = 0, hkey = 0, hop_info = 0\<rparr>],
      last_bucket = 0, lock = False, count = 0, timestamp = 0\<rparr>"

definition table_b1_one :: "32 word hs_table" where
  "table_b1_one = store_segment table_b1 65535
     \<lparr>bucket_array = Some
        [\<lparr>data = 101, hkey = 1, hop_info = 1\<rparr>],
      last_bucket = 0, lock = False, count = 0, timestamp = 0\<rparr>"

section \<open>Basic facts\<close>

lemma ebind_Inr [simp]: "ebind (Inr x) f = f x"
  by (simp add: ebind_def)

lemma ebind_Inl [simp]: "ebind (Inl e) f = Inl e"
  by (simp add: ebind_def)

lemma ebind_eq_Inr: "ebind m f = Inr y \<longleftrightarrow> (\<exists>x. m = Inr x \<and> f x = Inr y)"
  by (cases m) simp_all

lemma bucket_at_lock [simp]: "bucket_at (seg\<lparr>lock := l\<rparr>) p = bucket_at seg p"
  by (simp add: bucket_at_def)

lemma cn_loop_lock: "cn_loop table (seg\<lparr>lock := l\<rparr>) hk hop p = cn_loop table seg hk hop p"
proof (induction table seg hk hop p rule: cn_loop.induct)
  case (1 table seg hk hop this_bucket)
  define tb where "tb = (if this_bucket > last_bucket seg
                   then this_bucket - int (n_buckets_in_segment table) else this_bucket)"
  show ?case
  proof (cases "hop > 0")
    case False
    then show ?thesis
      by (subst cn_loop.simps, subst (2) cn_loop.simps) simp
  next
    case pos: True
    show ?thesis
    proof (cases "hop AND 1 \<noteq> 0")
      case False
      with pos 1(2) show ?thesis
        by (subst cn_loop.simps, subst (2) cn_loop.simps) simp
    next
      case bit: True
      show ?thesis
      proof (cases "bucket_at seg tb")
        case (Inl e)
        with pos bit show ?thesis
          by (subst cn_loop.simps, subst (2) cn_loop.simps) (simp add: tb_def)
      next
        case (Inr b)
        show ?thesis
        proof (cases "hk = hkey b")
          case True
          with pos bit Inr show ?thesis
            by (subst cn_loop.simps, subst (2) cn_loop.simps) (simp add: tb_def)
        next
          case False
          from 1(1) [OF pos bit tb_def Inr False]
          have "cn_loop table (seg\<lparr>lock := l\<rparr>) hk (drop_bit 1 hop) (tb + 1) =
                cn_loop table seg hk (drop_bit 1 hop) (tb + 1)" .
          with pos bit Inr False show ?thesis
            by (subst cn_loop.simps, subst (2) cn_loop.simps) (simp add: tb_def [symmetric])
        qed
      qed
    qed
  qed
qed

lemma check_neighborhood_lock [simp]:
  "check_neighborhood table (seg\<lparr>lock := l\<rparr>) start hk = check_neighborhood table seg start hk"
  by (simp add: check_neighborhood_def cn_loop_lock cong: sum.case_cong)

lemma hs_route_idx:
  assumes "hs_route ch table key = Inr (hk, idx, start)"
  shows "idx < length (segment_array table)"
proof -
  from assms obtain i where "get_segment_idx table (ch key) = Inr i"
    and "(if unat i < length (segment_array table) then
           (if n_buckets_in_segment table = 0 then Inl DivisionByZero
            else Inr (ch key, unat i, int (unat (ch key) mod n_buckets_in_segment table)))
         else Inl OutOfBounds) = Inr (hk, idx, start)"
    unfolding hs_route_def Let_def ebind_eq_Inr by blast
  then show ?thesis
    by (simp split: if_splits)
qed

lemma store_segment_unlock:
  assumes i: "idx < length (segment_array table)" and l: "\<not> lock (segment_array table ! idx)"
  shows "store_segment table idx (LOCK_RELEASE ((segment_array table ! idx)\<lparr>lock := True\<rparr>)) = table"
proof -
  have "(segment_array table ! idx)\<lparr>lock := False\<rparr> = segment_array table ! idx"
    using l by (cases "segment_array table ! idx") simp
  then show ?thesis
    by (simp add: store_segment_def LOCK_RELEASE_def)
qed

lemma hs_bound_iff:
  "hs_bound ch table key v \<longleftrightarrow>
     (\<exists>hk idx start p b.
        hs_route ch table key = Inr (hk, idx, start) \<and>
        check_neighborhood table (segment_array table ! idx) start hk = Inr (Some p) \<and>
        bucket_at (segment_array table ! idx) p = Inr b \<and> data b = v)"
proof (cases "hs_route ch table key")
  case (Inl e)
  then show ?thesis by (simp add: hs_bound_def)
next
  case (Inr r)
  obtain hk idx start where r: "r = (hk, idx, start)" by (cases r)
  show ?thesis
  proof (cases "check_neighborhood table (segment_array table ! idx) start hk")
    case (Inl e)
    with Inr r show ?thesis by (simp add: hs_bound_def)
  next
    case cn: (Inr found)
    show ?thesis
    proof (cases found)
      case None
      with Inr r cn show ?thesis by (simp add: hs_bound_def)
    next
      case (Some p)
      with Inr r cn show ?thesis
        by (cases "bucket_at (segment_array table ! idx) p") (simp_all add: hs_bound_def)
    qed
  qed
qed

lemma get_loop_serial:
  "get_loop table seg start hk tc =
     (case check_neighborhood table seg start hk of
        Inl e \<Rightarrow> Inl e
      | Inr (Some check_bucket) \<Rightarrow> ebind (bucket_at seg check_bucket) (\<lambda>b. Inr (data b))
      | Inr None \<Rightarrow> Inr NULL)"
  by (subst get_loop.simps) (simp cong: sum.case_cong option.case_cong)

lemma hs_get_table: "hs_get ch table key = Inr (v, table') \<Longrightarrow> table' = table"
  by (auto simp: hs_get_def ebind_eq_Inr)

lemma fold_ignore: "fold (\<lambda>i arr. arr) xs arr = arr"
  by (induction xs) simp_all

lemma get_segment_idx_store [simp]:
  "get_segment_idx (store_segment table i seg) hk = get_segment_idx table hk"
  by (simp add: get_segment_idx_def store_segment_def)

lemma store_segment_fields [simp]:
  "n_segments (store_segment table i seg) = n_segments table"
  "n_buckets_in_segment (store_segment table i seg) = n_buckets_in_segment table"
  "hop_range (store_segment table i seg) = hop_range table"
  "add_range (store_segment table i seg) = add_range table"
  "max_tries (store_segment table i seg) = max_tries table"
  "length (segment_array (store_segment table i seg)) = length (segment_array table)"
  by (simp_all add: store_segment_def)

lemma store_segment_nth [simp]:
  "i < length (segment_array table) \<Longrightarrow> segment_array (store_segment table i seg) ! i = seg"
  by (simp add: store_segment_def)

lemma store_segment_twice [simp]:
  "store_segment (store_segment table i seg) i seg' = store_segment table i seg'"
  by (simp add: store_segment_def)

subsection \<open>The segments that the constructor computes\<close>

text \<open>The value that the loop of \<open>hs_new\<close> gives to its local variable is a segment of
  \<open>B\<close> empty buckets with count 0 and timestamp 0; these are the segments of
  \<open>hs_new_stored\<close>.\<close>

lemma replicate_update_same: "i < n \<Longrightarrow> (replicate n x)[i := x] = replicate n x"
  by (simp add: list_eq_iff_nth_eq nth_list_update)

lemma init_buckets_fold:
  "\<forall>j \<in> set js. j < B \<Longrightarrow>
   fold (\<lambda>j bs. bs[j := (bs ! j)\<lparr>hkey := 0, hop_info := 0\<rparr>]) js (replicate B zero_bucket) =
     (replicate B zero_bucket :: 'k::len word hs_bucket list)"
proof (induction js)
  case Nil
  then show ?case by simp
next
  case (Cons j js)
  then have "j < B" by simp
  then have "(replicate B zero_bucket)[j := (replicate B zero_bucket ! j)\<lparr>hkey := 0, hop_info := 0\<rparr>] =
      (replicate B zero_bucket :: 'k word hs_bucket list)"
    by (simp add: zero_bucket_def replicate_update_same)
  with Cons show ?case by simp
qed

lemma init_buckets_empty: "init_buckets B = replicate B zero_bucket"
  unfolding init_buckets_def by (rule init_buckets_fold) simp

lemma hs_new_stored_segments:
  "segment_array (hs_new_stored S B R A T h) =
     replicate S \<lparr>bucket_array = Some (replicate B zero_bucket), last_bucket = int (uint_pred B),
                  lock = False, count = 0, timestamp = 0\<rparr>"
  by (simp add: hs_new_stored_def hs_new_local_seg_def init_buckets_empty zero_segment_def)

subsection \<open>No operation writes a segment's count\<close>

lemma bucket_upd_count: "bucket_upd seg p f = Inr seg' \<Longrightarrow> count seg' = count seg"
  by (auto simp: bucket_upd_def split: option.splits if_splits)

lemma swap_buckets_count:
  assumes "swap_buckets table seg fb cb bi md = Inr (seg', r)"
  shows "count seg' = count seg"
proof -
  from assms obtain s1 s2 s3 s4 s5 p1 p2 p3 p4 p5 p6 f1 f2 f3 f4 f5 f6 where
    "bucket_upd seg p1 f1 = Inr s1" "bucket_upd s1 p2 f2 = Inr s2" "bucket_upd s2 p3 f3 = Inr s3"
    "bucket_upd s3 p4 f4 = Inr s4" "bucket_upd (s4\<lparr>timestamp := timestamp s4 + 1\<rparr>) p5 f5 = Inr s5"
    "bucket_upd s5 p6 f6 = Inr seg'"
    unfolding swap_buckets_def Let_def ebind_eq_Inr by blast
  then show ?thesis
    by (auto dest!: bucket_upd_count)
qed

lemma fcfb_loop_count:
  "fcfb_loop table seg fb cb bi = Inr (seg', r) \<Longrightarrow> count seg' = count seg"
proof (induction table seg fb cb bi rule: fcfb_loop.induct)
  case (1 table seg free_bucket check_bucket bucket_idx)
  show ?case
  proof (cases "bucket_idx > 0")
    case False
    with "1.prems" show ?thesis
      by (subst (asm) fcfb_loop.simps) simp
  next
    case pos: True
    show ?thesis
    proof (cases "bucket_at seg check_bucket")
      case (Inl e)
      with pos "1.prems" show ?thesis
        by (subst (asm) fcfb_loop.simps) simp
    next
      case (Inr b)
      define md where "md = scan_hop_info 1 bucket_idx (push_bit 1 (1 :: 'a word)) (hop_info b) (- 1)"
      define c1 where "c1 = check_bucket + 1"
      define c2 where "c2 = (if c1 > last_bucket seg then c1 - int (n_buckets_in_segment table) else c1)"
      show ?thesis
      proof (cases "md \<noteq> - 1")
        case True
        with pos Inr "1.prems" have "swap_buckets table seg free_bucket check_bucket bucket_idx md = Inr (seg', r)"
          by (subst (asm) fcfb_loop.simps) (simp add: md_def)
        then show ?thesis by (rule swap_buckets_count)
      next
        case False
        with pos Inr "1.prems" have "fcfb_loop table seg free_bucket c2 (bucket_idx - 1) = Inr (seg', r)"
          by (subst (asm) fcfb_loop.simps) (simp add: md_def c1_def c2_def Let_def split: if_splits)
        with "1.IH" [OF pos Inr md_def False c1_def c2_def] show ?thesis .
      qed
    qed
  qed
qed

lemma find_closer_free_bucket_count:
  "find_closer_free_bucket table seg fb d = Inr (seg', r) \<Longrightarrow> count seg' = count seg"
  unfolding find_closer_free_bucket_def Let_def by (rule fcfb_loop_count)

lemma put_loop_count_aux:
  assumes "put_loop table seg start fb d hk dat = Some y"
  shows "\<forall>seg' fl. y = Inr (seg', fl) \<longrightarrow> count seg' = count seg"
proof (rule put_loop.raw_induct
    [where P = "\<lambda>table seg start fb d hk dat y.
                  \<forall>seg' fl. y = Inr (seg', fl) \<longrightarrow> count seg' = count seg", OF _ assms],
    goal_cases)
  case (1 put_loop table seg start_bucket free_bucket dist_travelled hk dat y)
  note IH = 1(1) and eq = 1(2)
  show ?case
  proof (cases "dist_travelled < hop_range table")
    case True
    show ?thesis
    proof (intro allI impI)
      fix seg' fl assume "y = Inr (seg', fl)"
      with True eq obtain s1 s2 s3 p1 p2 p3 f1 f2 f3 where
        "bucket_upd seg p1 f1 = Inr s1" "bucket_upd s1 p2 f2 = Inr s2" "bucket_upd s2 p3 f3 = Inr s3"
        "seg' = LOCK_RELEASE s3"
        by (auto simp: ebind_eq_Inr)
      then show "count seg' = count seg"
        by (auto simp: LOCK_RELEASE_def dest!: bucket_upd_count)
    qed
  next
    case far: False
    show ?thesis
    proof (cases "find_closer_free_bucket table seg free_bucket dist_travelled")
      case (Inl e)
      with far eq show ?thesis by auto
    next
      case (Inr res)
      obtain seg1 nf d1 where res: "res = (seg1, nf, d1)" by (cases res)
      from Inr res have c: "count seg1 = count seg"
        by (auto dest: find_closer_free_bucket_count)
      show ?thesis
      proof (cases nf)
        case None
        with far Inr res eq c show ?thesis by auto
      next
        case (Some f')
        with far Inr res eq have "put_loop table seg1 start_bucket f' d1 hk dat = Some y"
          by simp
        from IH [OF this] c show ?thesis by simp
      qed
    qed
  qed
qed

lemma put_loop_count:
  "put_loop table seg start fb d hk dat = Some (Inr (seg', fl)) \<Longrightarrow> count seg' = count seg"
  by (drule put_loop_count_aux) simp

lemma store_segment_count:
  "idx < length (segment_array table) \<Longrightarrow> count seg = count (segment_array table ! idx) \<Longrightarrow>
   map count (segment_array (store_segment table idx seg)) = map count (segment_array table)"
  by (simp add: store_segment_def list_eq_iff_nth_eq nth_list_update)

lemma hs_put_pass_count:
  assumes "hs_put_pass ch table key dat = Some (Inr (table', fl))"
  shows "map count (segment_array table') = map count (segment_array table)"
proof -
  from assms obtain hk idx start where r: "hs_route ch table key = Inr (hk, idx, start)"
    by (cases "hs_route ch table key") (auto simp: hs_put_pass_def)
  from r have i: "idx < length (segment_array table)" by (rule hs_route_idx)
  define seg0 where "seg0 = segment_array table ! idx"
  from assms r obtain seg where a: "LOCK_ACQUIRE seg0 = Inr seg"
    by (cases "LOCK_ACQUIRE seg0") (auto simp: hs_put_pass_def seg0_def)
  then have c0: "count seg = count seg0"
    by (auto simp: LOCK_ACQUIRE_def split: if_splits)
  note st = store_segment_count [OF i, folded seg0_def]
  show ?thesis
  proof (cases "check_neighborhood table seg start hk")
    case (Inl e)
    with assms r a show ?thesis by (simp add: hs_put_pass_def seg0_def)
  next
    case cn: (Inr found)
    show ?thesis
    proof (cases found)
      case (Some p)
      with assms r a cn have "table' = store_segment table idx (LOCK_RELEASE seg)"
        by (simp add: hs_put_pass_def seg0_def)
      with c0 st show ?thesis by (simp add: LOCK_RELEASE_def)
    next
      case None
      show ?thesis
      proof (cases "probe_loop table seg start 0")
        case (Inl e)
        with assms r a cn None show ?thesis by (simp add: hs_put_pass_def seg0_def)
      next
        case (Inr pr)
        obtain fb d where pr: "pr = (fb, d)" by (cases pr)
        show ?thesis
        proof (cases "d < add_range table")
          case False
          with assms r a cn None Inr pr have "table' = store_segment table idx (LOCK_RELEASE seg)"
            by (simp add: hs_put_pass_def seg0_def)
          with c0 st show ?thesis by (simp add: LOCK_RELEASE_def)
        next
          case True
          with assms r a cn None Inr pr obtain seg' rt where
            pl: "put_loop table seg start fb d hk dat = Some (Inr (seg', rt))" and
            t': "table' = store_segment table idx (if rt then seg' else LOCK_RELEASE seg')"
            by (auto simp: hs_put_pass_def seg0_def split: option.splits sum.splits if_splits)
          from pl have "count seg' = count seg" by (rule put_loop_count)
          with c0 st t' show ?thesis by (simp add: LOCK_RELEASE_def)
        qed
      qed
    qed
  qed
qed

lemma hs_put_count_aux:
  assumes "hs_put ch table key dat = Some y"
  shows "\<forall>table'. y = Inr table' \<longrightarrow> map count (segment_array table') = map count (segment_array table)"
proof (rule hs_put.raw_induct
    [where P = "\<lambda>ch table key dat y.
                  \<forall>table'. y = Inr table' \<longrightarrow>
                    map count (segment_array table') = map count (segment_array table)", OF _ assms],
    goal_cases)
  case (1 hs_put ch table key dat y)
  note IH = 1(1) and eq = 1(2)
  show ?case
  proof (cases "hs_put_pass ch table key dat")
    case None
    with eq show ?thesis by simp
  next
    case (Some res)
    show ?thesis
    proof (cases res)
      case (Inl e)
      with Some eq show ?thesis by auto
    next
      case (Inr tr)
      obtain table1 returned where tr: "tr = (table1, returned)" by (cases tr)
      from Some Inr tr have c: "map count (segment_array table1) = map count (segment_array table)"
        by (auto dest: hs_put_pass_count)
      show ?thesis
      proof (cases returned)
        case True
        with Some Inr tr eq c show ?thesis by auto
      next
        case False
        with Some Inr tr eq have "hs_put ch (hs_resize table1) key dat = Some y"
          by simp
        from IH [OF this] c show ?thesis by (simp add: hs_resize_def)
      qed
    qed
  qed
qed

lemma hs_put_count:
  "hs_put ch table key dat = Some (Inr table') \<Longrightarrow>
   map count (segment_array table') = map count (segment_array table)"
  by (drule hs_put_count_aux) simp

lemma hs_remove_count:
  assumes "hs_remove ch table key = Inr (v, table')"
  shows "map count (segment_array table') = map count (segment_array table)"
proof -
  from assms obtain hk idx start where r: "hs_route ch table key = Inr (hk, idx, start)"
    by (cases "hs_route ch table key") (auto simp: hs_remove_def)
  from r have i: "idx < length (segment_array table)" by (rule hs_route_idx)
  define seg0 where "seg0 = segment_array table ! idx"
  from assms r obtain seg where a: "LOCK_ACQUIRE seg0 = Inr seg"
    by (cases "LOCK_ACQUIRE seg0") (auto simp: hs_remove_def seg0_def)
  then have c0: "count seg = count seg0"
    by (auto simp: LOCK_ACQUIRE_def split: if_splits)
  note st = store_segment_count [OF i, folded seg0_def]
  from assms r a obtain found where cn: "check_neighborhood table seg start hk = Inr found"
    by (cases "check_neighborhood table seg start hk") (auto simp: hs_remove_def seg0_def)
  show ?thesis
  proof (cases found)
    case None
    with assms r a cn have "table' = store_segment table idx (LOCK_RELEASE seg)"
      by (simp add: hs_remove_def seg0_def)
    with c0 st show ?thesis by (simp add: LOCK_RELEASE_def)
  next
    case (Some p)
    with assms r a cn obtain s1 s2 s3 p1 p2 p3 f1 f2 f3 where
      "bucket_upd seg p1 f1 = Inr s1" "bucket_upd s1 p2 f2 = Inr s2" "bucket_upd s2 p3 f3 = Inr s3"
      "table' = store_segment table idx s3"
      by (auto simp: hs_remove_def seg0_def ebind_eq_Inr)
    with c0 st show ?thesis by (auto dest!: bucket_upd_count)
  qed
qed

subsection \<open>One pass of hs_put ends\<close>

text \<open>A displacement leaves a distance of at most \<open>hop_range - 1\<close>, so the
  \<^verbatim>\<open>do ... while\<close> loop of \<open>hs_put\<close> is left after at most one displacement, and every
  pass through the body of \<open>hs_put\<close> ends. A call of \<open>hs_put\<close> can fail to return only
  through the call of itself after \<^verbatim>\<open>resize()\<close>.\<close>

lemma swap_buckets_dist:
  "swap_buckets table seg fb cb bi md = Inr (seg', f, d) \<Longrightarrow> d = bi"
  by (auto simp: swap_buckets_def Let_def ebind_eq_Inr)

lemma fcfb_loop_dist:
  "fcfb_loop table seg fb cb bi = Inr (seg', Some f, d) \<Longrightarrow> 0 < d \<and> d \<le> bi"
proof (induction table seg fb cb bi rule: fcfb_loop.induct)
  case (1 table seg free_bucket check_bucket bucket_idx)
  show ?case
  proof (cases "bucket_idx > 0")
    case False
    with "1.prems" show ?thesis
      by (subst (asm) fcfb_loop.simps) simp
  next
    case pos: True
    show ?thesis
    proof (cases "bucket_at seg check_bucket")
      case (Inl e)
      with pos "1.prems" show ?thesis
        by (subst (asm) fcfb_loop.simps) simp
    next
      case (Inr b)
      define md where "md = scan_hop_info 1 bucket_idx (push_bit 1 (1 :: 'a word)) (hop_info b) (- 1)"
      define c1 where "c1 = check_bucket + 1"
      define c2 where "c2 = (if c1 > last_bucket seg then c1 - int (n_buckets_in_segment table) else c1)"
      show ?thesis
      proof (cases "md \<noteq> - 1")
        case True
        with pos Inr "1.prems" have "swap_buckets table seg free_bucket check_bucket bucket_idx md = Inr (seg', Some f, d)"
          by (subst (asm) fcfb_loop.simps) (simp add: md_def)
        with pos show ?thesis by (auto dest: swap_buckets_dist)
      next
        case False
        with pos Inr "1.prems" have "fcfb_loop table seg free_bucket c2 (bucket_idx - 1) = Inr (seg', Some f, d)"
          by (subst (asm) fcfb_loop.simps) (simp add: md_def c1_def c2_def Let_def split: if_splits)
        with "1.IH" [OF pos Inr md_def False c1_def c2_def] show ?thesis by auto
      qed
    qed
  qed
qed

lemma find_closer_free_bucket_dist:
  "find_closer_free_bucket table seg fb d0 = Inr (seg', Some f, d) \<Longrightarrow>
   d \<le> uint_pred (hop_range table)"
  unfolding find_closer_free_bucket_def Let_def by (drule fcfb_loop_dist) simp

lemma put_loop_returns:
  assumes "0 < hop_range table" and "hop_range table < 2 ^ 32"
  shows "put_loop table seg start fb d hk dat \<noteq> None"
proof (cases "d < hop_range table")
  case True
  then show ?thesis by (subst put_loop.simps) simp
next
  case far: False
  show ?thesis
  proof (cases "find_closer_free_bucket table seg fb d")
    case (Inl e)
    with far show ?thesis by (subst put_loop.simps) simp
  next
    case (Inr res)
    obtain seg1 nf d1 where res: "res = (seg1, nf, d1)" by (cases res)
    show ?thesis
    proof (cases nf)
      case None
      with far Inr res show ?thesis by (subst put_loop.simps) simp
    next
      case (Some f')
      with Inr res have "d1 \<le> uint_pred (hop_range table)"
        by (auto dest: find_closer_free_bucket_dist)
      moreover from assms have "uint_pred (hop_range table) = hop_range table - 1"
        unfolding uint_pred_def by (simp add: mod_if)
      ultimately have "d1 < hop_range table"
        using assms by simp
      then have "put_loop table seg1 start f' d1 hk dat \<noteq> None"
        by (subst put_loop.simps) simp
      with far Inr res Some show ?thesis by (subst put_loop.simps) simp
    qed
  qed
qed

lemma hs_put_pass_returns:
  assumes "0 < hop_range table" and "hop_range table < 2 ^ 32"
  shows "hs_put_pass ch table key dat \<noteq> None"
proof (cases "hs_route ch table key")
  case (Inl e)
  then show ?thesis by (simp add: hs_put_pass_def)
next
  case (Inr r)
  obtain hk idx start where r: "r = (hk, idx, start)" by (cases r)
  show ?thesis
  proof (cases "LOCK_ACQUIRE (segment_array table ! idx)")
    case (Inl e)
    with Inr r show ?thesis by (simp add: hs_put_pass_def)
  next
    case la: (Inr seg)
    show ?thesis
    proof (cases "check_neighborhood table seg start hk")
      case (Inl e)
      with Inr r la show ?thesis by (simp add: hs_put_pass_def)
    next
      case cn: (Inr found)
      show ?thesis
      proof (cases found)
        case (Some p)
        with Inr r la cn show ?thesis by (simp add: hs_put_pass_def)
      next
        case None
        show ?thesis
        proof (cases "probe_loop table seg start 0")
          case (Inl e)
          with Inr r la cn None show ?thesis by (simp add: hs_put_pass_def)
        next
          case pl: (Inr pr)
          obtain fb d where pr: "pr = (fb, d)" by (cases pr)
          from put_loop_returns [OF assms] obtain res where
            "put_loop table seg start fb d hk dat = Some res"
            by blast
          with Inr r la cn None pl pr show ?thesis
            by (cases res) (auto simp: hs_put_pass_def)
        qed
      qed
    qed
  qed
qed

section \<open>Evaluation on the test tables\<close>

lemma init_buckets_8: "Some (init_buckets 8) = bucket_array fresh_segment_b8"
  by (simp add: init_buckets_def zero_bucket_def NULL_def fresh_segment_b8_def eval_nat_numeral upt_rec)

lemma init_buckets_4: "Some (init_buckets 4) = bucket_array fresh_segment_b4"
  by (simp add: init_buckets_def zero_bucket_def NULL_def fresh_segment_b4_def eval_nat_numeral upt_rec)

lemma init_buckets_1: "Some (init_buckets (Suc 0)) = bucket_array fresh_segment_b1"
  by (simp add: init_buckets_def zero_bucket_def NULL_def fresh_segment_b1_def)

lemma local_seg_8: "hs_new_local_seg 8 zero_segment = fresh_segment_b8"
  by (simp add: hs_new_local_seg_def init_buckets_8 zero_segment_def uint_pred_def)
    (simp add: fresh_segment_b8_def)

lemma local_seg_4: "hs_new_local_seg 4 zero_segment = fresh_segment_b4"
  by (simp add: hs_new_local_seg_def init_buckets_4 zero_segment_def uint_pred_def)
    (simp add: fresh_segment_b4_def)

lemma local_seg_1: "hs_new_local_seg (Suc 0) zero_segment = fresh_segment_b1"
  by (simp add: hs_new_local_seg_def init_buckets_1 zero_segment_def uint_pred_def)
    (simp add: fresh_segment_b1_def)

lemma table_b8_segment: "table_b8 = store_segment table_b8 65535 fresh_segment_b8"
  by (simp add: table_b8_def hs_new_stored_def store_segment_def local_seg_8 replicate_update_same)

lemma table_b4_segment: "table_b4 = store_segment table_b4 65535 fresh_segment_b4"
  by (simp add: table_b4_def hs_new_stored_def store_segment_def local_seg_4 replicate_update_same)

lemma table_b1_segment: "table_b1 = store_segment table_b1 65535 fresh_segment_b1"
  by (simp add: table_b1_def hs_new_stored_def store_segment_def local_seg_1 replicate_update_same)

lemma table_b8_fields [simp]:
  "n_segments table_b8 = 65536" "n_buckets_in_segment table_b8 = 8" "hop_range table_b8 = 3"
  "add_range table_b8 = 8" "max_tries table_b8 = 1" "length (segment_array table_b8) = 65536"
  by (simp_all add: table_b8_def hs_new_stored_def hs_new_def)

lemma table_b4_fields [simp]:
  "n_segments table_b4 = 65536" "n_buckets_in_segment table_b4 = 4" "hop_range table_b4 = 3"
  "add_range table_b4 = 4" "max_tries table_b4 = 1" "length (segment_array table_b4) = 65536"
  by (simp_all add: table_b4_def hs_new_stored_def hs_new_def)

lemma table_b1_fields [simp]:
  "n_segments table_b1 = 65536" "n_buckets_in_segment table_b1 = 1" "hop_range table_b1 = 1"
  "add_range table_b1 = 1" "max_tries table_b1 = 1" "length (segment_array table_b1) = 65536"
  by (simp_all add: table_b1_def hs_new_stored_def hs_new_def)

lemma table_spec_fields [simp]:
  "n_segments table_spec = 4" "n_buckets_in_segment table_spec = 16" "length (segment_array table_spec) = 4"
  by (simp_all add: table_spec_def hs_new_def hs_new_segments_def fold_ignore)

lemma clog2_65536: "clog2 65536 = 16"
  by (simp add: clog2.simps)

lemma clog2_4: "clog2 4 = 2"
  by (simp add: clog2.simps)

lemma get_segment_idx_65536:
  "n_segments table = 65536 \<Longrightarrow> get_segment_idx table (hk :: 32 word) = Inr 65535"
  by (simp add: get_segment_idx_def segment_nbits_def clog2_65536 mask_loop.simps shl1_def)

lemma get_segment_idx_spec: "get_segment_idx table_spec hk = Inr 0x3FFFFFFF"
  by (simp add: get_segment_idx_def segment_nbits_def clog2_4 mask_loop.simps shl1_def)

lemmas hs_eval =
  hs_put.simps hs_put_pass_def hs_route_def get_segment_idx_65536 LOCK_ACQUIRE_def LOCK_RELEASE_def
  check_neighborhood_def cn_loop.simps bucket_at_def bucket_upd_def probe_loop.simps put_loop.simps
  shl1_def id_hash_def find_closer_free_bucket_def fcfb_loop.simps scan_hop_info.simps
  swap_buckets_def uint_pred_def hs_get_def get_loop_serial hs_remove_def hs_resize_def NULL_def

lemma run_one: "hs_run id_hash table_b8 [Put 8 108] = Some (Inr ([Done], table_b8_one))"
  by (subst table_b8_segment) (simp add: hs_eval fresh_segment_b8_def table_b8_one_def)

lemma run_five:
  "hs_run id_hash table_b8 [Put 8 108, Put 9 109, Put 10 110, Put 18 118, Put 16 116] =
     Some (Inr ([Done, Done, Done, Done, Done], table_b8_five))"
  by (subst table_b8_segment) (simp add: hs_eval fresh_segment_b8_def table_b8_five_def)

lemma run_wrap: "hs_run id_hash table_b4 [Put 3 103, Put 7 107, Put 2 102] =
     Some (Inr ([Done, Done, Done], store_segment table_b4 65535 segment_wrap))"
  by (subst table_b4_segment) (simp add: hs_eval fresh_segment_b4_def segment_wrap_def)

lemma run_full: "hs_run id_hash table_b1 [Put 1 101] = Some (Inr ([Done], table_b1_one))"
  by (subst table_b1_segment) (simp add: hs_eval fresh_segment_b1_def table_b1_one_def)

lemma quiescent_table_b8: "quiescent table_b8"
  by (simp add: quiescent_def table_b8_def hs_new_stored_def hs_new_local_seg_def list_all_iff)

lemma quiescent_store:
  "quiescent table \<Longrightarrow> \<not> lock seg \<Longrightarrow> quiescent (store_segment table i seg)"
  by (auto simp: quiescent_def store_segment_def list_all_iff dest!: set_update_subset_insert [THEN subsetD])

lemma bound_one: "hs_bound id_hash table_b8_one 8 108"
  by (simp add: hs_bound_def table_b8_one_def hs_route_def get_segment_idx_65536 id_hash_def
      check_neighborhood_def cn_loop.simps bucket_at_def)

lemma quiescent_one: "quiescent table_b8_one"
  unfolding table_b8_one_def by (rule quiescent_store [OF quiescent_table_b8]) simp

text \<open>A pass of \<open>hs_put\<close> that leaves the table as it was and goes on to
  \<^verbatim>\<open>resize()\<close> is repeated for ever: \<open>hs_resize\<close> changes nothing.\<close>

lemma hs_put_pass_loops:
  assumes pass: "hs_put_pass ch table key dat = Some (Inr (table, False))"
  shows "hs_put ch table key dat = None"
proof (cases "hs_put ch table key dat")
  case None
  then show ?thesis .
next
  case (Some y)
  have "hs_put_pass ch table key dat \<noteq> Some (Inr (table, False))"
  proof (rule hs_put.raw_induct
      [where P = "\<lambda>ch table key dat y. hs_put_pass ch table key dat \<noteq> Some (Inr (table, False))",
        OF _ Some], goal_cases)
    case (1 f ch table key dat y)
    note IH = 1(1) and eq = 1(2)
    show ?case
    proof
      assume p: "hs_put_pass ch table key dat = Some (Inr (table, False))"
      with eq have "f ch table key dat = Some y"
        by (simp add: hs_resize_def)
      from IH [OF this] p show False by simp
    qed
  qed
  with pass show ?thesis by simp
qed

text \<open>The path of \<open>hs_put\<close> that finds the key: when the neighbourhood scan finds the
  key and no segment lock is held, the put returns the table as it was, and get returns
  the value of the key.\<close>

lemma hs_put_existing_key:
  assumes "hs_bound ch table key v" and "quiescent table"
  shows "hs_put ch table key v' = Some (Inr table) \<and> hs_get ch table key = Inr (v, table)"
proof -
  from assms(1) obtain hk idx start p b where
    r: "hs_route ch table key = Inr (hk, idx, start)" and
    c: "check_neighborhood table (segment_array table ! idx) start hk = Inr (Some p)" and
    b: "bucket_at (segment_array table ! idx) p = Inr b" and v: "data b = v"
    unfolding hs_bound_iff by blast
  from r have i: "idx < length (segment_array table)" by (rule hs_route_idx)
  with assms(2) have l: "\<not> lock (segment_array table ! idx)"
    by (simp add: quiescent_def list_all_length)
  have "hs_put_pass ch table key v' = Some (Inr (table, True))"
    using c i l by (simp add: hs_put_pass_def r LOCK_ACQUIRE_def store_segment_unlock)
  then have "hs_put ch table key v' = Some (Inr table)"
    by (subst hs_put.simps) simp
  moreover have "hs_get ch table key = Inr (v, table)"
    by (simp add: hs_get_def r get_loop_serial c b v)
  ultimately show ?thesis by simp
qed

lemma hs_put_existing_key_one:
  "hs_put id_hash table_b8_one 8 999 = Some (Inr table_b8_one) \<and>
   hs_get id_hash table_b8_one 8 = Inr (108, table_b8_one)"
  by (rule hs_put_existing_key [OF bound_one quiescent_one])

section \<open>The properties\<close>

subsection \<open>C1: round trip\<close>

text \<open>
  C1 says that after distinct keys are put into a fresh table, get returns the value of
  each. The code does not do this. On the table that \<open>hs_new\<close> returns for the
  configuration \<open>S = 4\<close>, \<open>B = 16\<close>, \<open>R = 8\<close>, \<open>A = 32\<close> the first put indexes the segment
  array with the mask \<open>0x3FFFFFFF\<close> and ends in an out-of-range access. On a table with
  initialised segments five puts of distinct keys succeed, the fifth through a
  displacement, and the get of the fifth key returns \<^verbatim>\<open>NULL\<close> instead of its value 116.
\<close>

theorem round_trip_lost_key:
  "hs_run id_hash table_spec [Put 0x11 5, Get 0x11] = Some (Inl OutOfBounds) \<and>
   hs_run id_hash table_b8 [Put 8 108, Put 9 109, Put 10 110, Put 18 118, Put 16 116, Get 16] =
     Some (Inr ([Done, Done, Done, Done, Done, Value NULL], table_b8_five))"
proof
  show "hs_run id_hash table_spec [Put 0x11 5, Get 0x11] = Some (Inl OutOfBounds)"
    by (simp add: hs_put.simps hs_put_pass_def hs_route_def get_segment_idx_spec)
  show "hs_run id_hash table_b8 [Put 8 108, Put 9 109, Put 10 110, Put 18 118, Put 16 116, Get 16] =
     Some (Inr ([Done, Done, Done, Done, Done, Value NULL], table_b8_five))"
    by (subst table_b8_segment) (simp add: hs_eval fresh_segment_b8_def table_b8_five_def)
qed

subsection \<open>C2: segment routing\<close>

text \<open>
  C2 says that the segment of a hashed key \<open>h\<close> is \<open>h AND (S - 1)\<close>. \<open>get_segment_idx\<close>
  returns its mask and never looks at the key: with four segments and the hashed key
  \<open>0x11\<close> it yields \<open>0x3FFFFFFF\<close>, where the low two bits of the key are 1.
\<close>

theorem get_segment_idx_returns_mask:
  "n_segments table_spec = 4 \<and> get_segment_idx table_spec 0x11 = Inr 0x3FFFFFFF \<and>
   (0x11 :: 32 word) AND (4 - 1) = 1"
  by (simp add: get_segment_idx_spec)

subsection \<open>C3: first writer wins\<close>

text \<open>
  C3 says that for every key that is bound to \<open>v\<close> a further put of the key returns
  without overwriting a bucket, and that get still returns \<open>v\<close>. The path of \<open>hs_put\<close>
  that finds the key does so (\<open>hs_put_existing_key\<close>), but the code does not reach that
  path for every bound key. After the puts of keys 8 and 9 and the remove of key 9 the
  key 8 is bound to 108 and the lock of its segment is still held by the remove: the put
  of key 8 blocks on \<^verbatim>\<open>LOCK_ACQUIRE\<close> and does not return. After the five puts that end
  with the put of key 16, which returned, the scan from the start bucket of key 16 does
  not find the key: get returns \<^verbatim>\<open>NULL\<close> instead of 116, and a further put of key 16
  finds no bucket in its hop range, goes on to \<^verbatim>\<open>resize()\<close> and never returns.
\<close>

theorem hs_put_bound_key_not_returning:
  "hs_run id_hash table_b8 [Put 8 108, Put 9 109, Remove 9] =
     Some (Inr ([Done, Done, Value 109], table_b8_locked)) \<and>
   hs_bound id_hash table_b8_locked 8 108 \<and>
   hs_put id_hash table_b8_locked 8 999 = Some (Inl Deadlock) \<and>
   hs_run id_hash table_b8 [Put 8 108, Put 9 109, Put 10 110, Put 18 118, Put 16 116] =
     Some (Inr ([Done, Done, Done, Done, Done], table_b8_five)) \<and>
   hs_get id_hash table_b8_five 16 = Inr (NULL, table_b8_five) \<and>
   hs_put id_hash table_b8_five 16 999 = None"
proof (intro conjI)
  show "hs_run id_hash table_b8 [Put 8 108, Put 9 109, Remove 9] =
     Some (Inr ([Done, Done, Value 109], table_b8_locked))"
    by (subst table_b8_segment) (simp add: hs_eval fresh_segment_b8_def table_b8_locked_def)
  show "hs_bound id_hash table_b8_locked 8 108"
    by (simp add: hs_bound_def table_b8_locked_def hs_route_def get_segment_idx_65536 id_hash_def
        check_neighborhood_def cn_loop.simps bucket_at_def)
  show "hs_put id_hash table_b8_locked 8 999 = Some (Inl Deadlock)"
    by (simp add: table_b8_locked_def hs_put.simps hs_put_pass_def hs_route_def
        get_segment_idx_65536 id_hash_def LOCK_ACQUIRE_def)
  show "hs_run id_hash table_b8 [Put 8 108, Put 9 109, Put 10 110, Put 18 118, Put 16 116] =
     Some (Inr ([Done, Done, Done, Done, Done], table_b8_five))"
    by (rule run_five)
  show "hs_get id_hash table_b8_five 16 = Inr (NULL, table_b8_five)"
    by (simp add: table_b8_five_def hs_get_def hs_route_def get_segment_idx_65536 id_hash_def
        get_loop_serial check_neighborhood_def cn_loop.simps bucket_at_def)
  have "hs_put_pass id_hash table_b8_five 16 999 = Some (Inr (table_b8_five, False))"
    by (simp add: table_b8_five_def hs_put_pass_def hs_route_def get_segment_idx_65536
        LOCK_ACQUIRE_def LOCK_RELEASE_def check_neighborhood_def cn_loop.simps bucket_at_def
        probe_loop.simps put_loop.simps find_closer_free_bucket_def fcfb_loop.simps
        scan_hop_info.simps uint_pred_def id_hash_def)
  then show "hs_put id_hash table_b8_five 16 999 = None"
    by (rule hs_put_pass_loops)
qed

subsection \<open>C4: remove\<close>

text \<open>
  C4 says that remove of a bound key returns its value, that get and a second remove
  then report the key absent, and that remove of an unbound key changes nothing. On the
  path that finds the key \<open>hs_remove\<close> returns with the segment lock held: after put and
  remove of key 8 the get returns \<^verbatim>\<open>NULL\<close>, the lock of the segment is held, and a second
  remove blocks on \<^verbatim>\<open>LOCK_ACQUIRE\<close> instead of returning. When the bucket of the key lies
  before its start bucket (key 7 of \<open>table_b4\<close>, start bucket 3, stored in bucket 0) the
  shift count \<^verbatim>\<open>check_bucket - start_bucket\<close> is negative and the remove has no defined
  result.
\<close>

theorem hs_remove_keeps_lock:
  "hs_run id_hash table_b8 [Put 8 108, Remove 8, Get 8] =
     Some (Inr ([Done, Value 108, Value NULL], table_b8_removed)) \<and>
   lock (segment_array table_b8_removed ! 65535) \<and>
   hs_run id_hash table_b8 [Put 8 108, Remove 8, Remove 8] = Some (Inl Deadlock) \<and>
   hs_run id_hash table_b4 [Put 3 103, Put 7 107, Remove 7] = Some (Inl UndefinedShift)"
proof (intro conjI)
  show "hs_run id_hash table_b8 [Put 8 108, Remove 8, Get 8] =
     Some (Inr ([Done, Value 108, Value NULL], table_b8_removed))"
    by (subst table_b8_segment) (simp add: hs_eval fresh_segment_b8_def table_b8_removed_def)
  show "lock (segment_array table_b8_removed ! 65535)"
    by (simp add: table_b8_removed_def)
  show "hs_run id_hash table_b8 [Put 8 108, Remove 8, Remove 8] = Some (Inl Deadlock)"
    by (subst table_b8_segment) (simp add: hs_eval fresh_segment_b8_def)
  show "hs_run id_hash table_b4 [Put 3 103, Put 7 107, Remove 7] = Some (Inl UndefinedShift)"
    by (subst table_b4_segment) (simp add: hs_eval fresh_segment_b4_def)
qed

subsection \<open>C5: constructor\<close>

text \<open>
  C5 says that every segment of the table returned by \<open>hs_new\<close> has B empty buckets,
  count 0 and timestamp 0. The loop of \<open>hs_new\<close> initialises a local copy of each
  segment; for all arguments the segments of the returned table are the zeroed memory
  of the allocation, whose bucket array is the null pointer.
\<close>

theorem hs_new_segments_zeroed:
  "segment_array (hs_new S B R A T h) = replicate S zero_segment \<and>
   bucket_array (zero_segment :: 'k::len word hs_segment) = None"
  by (simp add: hs_new_def hs_new_segments_def zero_segment_def fold_ignore)

subsection \<open>C6: count\<close>

text \<open>
  C6 says that a segment's count is the number of its non-empty buckets, a put of a new
  key incrementing it and a remove decrementing it. No function writes \<^verbatim>\<open>count\<close> after
  the constructor: the put of key 8 into \<open>table_b8\<close> fills one bucket of its segment and
  leaves its count 0.
\<close>

theorem count_invariant_counterexample:
  "hs_run id_hash table_b8 [Put 8 108] = Some (Inr ([Done], table_b8_one)) \<and>
   count (segment_array table_b8_one ! 65535) = 0 \<and>
   nonempty_buckets (segment_array table_b8_one ! 65535) = 1"
  using run_one by (simp add: table_b8_one_def nonempty_buckets_def del: hs_run.simps)

text \<open>
  C6 as amended: in every state that a serialized sequence of put, get and remove
  operations reaches, each segment's count is the count it had in the starting table.
\<close>

theorem count_unchanged:
  "hs_run ch table ops = Some (Inr (rs, table')) \<Longrightarrow>
   map count (segment_array table') = map count (segment_array table)"
proof (induction ops arbitrary: table rs)
  case Nil
  then show ?case by simp
next
  case (Cons c ops)
  from Cons.prems obtain r table1 rs1 where
    s: "hs_step ch table c = Some (Inr (r, table1))" and
    t: "hs_run ch table1 ops = Some (Inr (rs1, table'))"
    by (auto split: option.splits sum.splits)
  from s have "map count (segment_array table1) = map count (segment_array table)"
    by (cases c) (auto split: option.splits sum.splits dest: hs_put_count hs_remove_count hs_get_table)
  with Cons.IH [OF t] show ?case by simp
qed

theorem count_unchanged_witness:
  "hs_run id_hash table_b8 [Put 8 108, Remove 8] = Some (Inr ([Done, Value 108], table_b8_removed)) \<and>
   map count (segment_array table_b8_removed) = map count (segment_array table_b8)"
proof -
  have run: "hs_run id_hash table_b8 [Put 8 108, Remove 8] =
      Some (Inr ([Done, Value 108], table_b8_removed))"
    by (subst table_b8_segment) (simp add: hs_eval fresh_segment_b8_def table_b8_removed_def)
  from count_unchanged [OF run] run show ?thesis
    by (simp del: hs_run.simps)
qed

subsection \<open>C7: displacement step\<close>

text \<open>
  C7 describes one call of \<open>find_closer_free_bucket\<close>: the donor found in the bitmap of a
  candidate home is moved into the free bucket and becomes the new free bucket. When the
  donor lies past the last bucket of the segment the code wraps the pointer of the
  candidate home instead of the pointer of the donor. In \<open>table_b4\<close> (four buckets,
  hop range 3) after the puts of keys 3, 7 and 2 the put of key 6 starts at bucket 2 and
  finds the free bucket 1 at distance 3; the candidate home is bucket 3 and its donor is
  at offset 1, past the end. The call ends in an out-of-range access, and so does the put.
\<close>

theorem find_closer_free_bucket_wrap_fault:
  "hs_run id_hash table_b4 [Put 3 103, Put 7 107, Put 2 102] =
     Some (Inr ([Done, Done, Done], store_segment table_b4 65535 segment_wrap)) \<and>
   hs_route id_hash (store_segment table_b4 65535 segment_wrap) 6 = Inr (6, 65535, 2) \<and>
   probe_loop table_b4 (segment_wrap\<lparr>lock := True\<rparr>) 2 0 = Inr (1, 3) \<and>
   find_closer_free_bucket table_b4 (segment_wrap\<lparr>lock := True\<rparr>) 1 3 = Inl OutOfBounds \<and>
   hs_put id_hash (store_segment table_b4 65535 segment_wrap) 6 106 = Some (Inl OutOfBounds)"
  using run_wrap by (simp add: hs_eval segment_wrap_def del: hs_run.simps)

subsection \<open>C8: hop range\<close>

text \<open>
  C8 says that every non-empty bucket is less than R buckets after the home bucket of
  its key, and that put writes a key only at such a distance. After a displacement the
  code takes the offset from the candidate home as the distance from the key's own start
  bucket. In \<open>table_b8\<close> (hop range 3) the fifth put, of key 16 with start bucket 0, writes
  the key into bucket 3.
\<close>

theorem hs_put_beyond_hop_range:
  "hs_run id_hash table_b8 [Put 8 108, Put 9 109, Put 10 110, Put 18 118, Put 16 116] =
     Some (Inr ([Done, Done, Done, Done, Done], table_b8_five)) \<and>
   hs_route id_hash table_b8_five 16 = Inr (16, 65535, 0) \<and>
   bucket_at (segment_array table_b8_five ! 65535) 3 = Inr \<lparr>data = 116, hkey = 16, hop_info = 0\<rparr> \<and>
   hop_range table_b8_five = 3"
  using run_five
  by (simp add: table_b8_five_def hs_route_def get_segment_idx_65536 id_hash_def bucket_at_def del: hs_run.simps)

subsection \<open>C9: termination of put\<close>

text \<open>
  C9 says that every call of put returns. Each pass through the body of \<open>hs_put\<close> ends
  (\<open>hs_put_pass_returns\<close>), but \<open>hs_resize\<close> is not implemented, and the put that follows
  it meets the table it left. In \<open>table_b1\<close> (one bucket per segment) after the put of
  key 1 the put of key 2 finds no free bucket and never returns.
\<close>

theorem hs_put_never_returns:
  "hs_run id_hash table_b1 [Put 1 101] = Some (Inr ([Done], table_b1_one)) \<and>
   hs_put id_hash table_b1_one 2 102 = None"
proof
  show "hs_run id_hash table_b1 [Put 1 101] = Some (Inr ([Done], table_b1_one))"
    by (rule run_full)
  have "hs_put_pass id_hash table_b1_one 2 102 = Some (Inr (table_b1_one, False))"
    by (simp add: table_b1_one_def hs_put_pass_def hs_route_def get_segment_idx_65536 LOCK_ACQUIRE_def
        LOCK_RELEASE_def check_neighborhood_def cn_loop.simps bucket_at_def probe_loop.simps id_hash_def)
  then show "hs_put id_hash table_b1_one 2 102 = None"
    by (rule hs_put_pass_loops)
qed

subsection \<open>C10: get writes nothing\<close>

text \<open>
  C10: whenever \<open>hs_get\<close> returns, the table after the call is the table before it, in
  every field of the table, of its segments and of their buckets.
\<close>

theorem hs_get_pure: "hs_get ch table key = Inr (v, table') \<Longrightarrow> table' = table"
  by (rule hs_get_table)

theorem hs_get_pure_witness:
  "hs_get id_hash table_b8_one 8 = Inr (108, table_b8_one) \<and> table_b8_one = table_b8_one"
proof -
  have g: "hs_get id_hash table_b8_one 8 = Inr (108, table_b8_one)"
    by (simp add: table_b8_one_def hs_get_def hs_route_def get_segment_idx_65536 id_hash_def
        get_loop_serial check_neighborhood_def cn_loop.simps bucket_at_def)
  from hs_get_pure [OF g] g show ?thesis by simp
qed

end
